theory Spec2Isabelle
  imports Complex_Main "HOL-Library.Word"
begin

unbundle bit_operations_syntax

section \<open>USB audio frame receiver (scripts/usb_audio/receiver.py)\<close>

subsection \<open>Bytes, samples and the frame constants\<close>

type_synonym byte = "8 word"
type_synonym int16 = "16 word"

text \<open>Frame format constants of receiver.py, lines 14-16.\<close>

abbreviation FRAME_MAGIC :: int where "FRAME_MAGIC \<equiv> 43605"  \<comment> \<open>0xAA55\<close>
abbreviation FRAME_HEADER_SIZE :: nat where "FRAME_HEADER_SIZE \<equiv> 6"
abbreviation CHECKSUM_SIZE :: nat where "CHECKSUM_SIZE \<equiv> 2"

text \<open>
  \<^verbatim>\<open>struct.unpack('<H', b)[0]\<close> on a two-byte slice: the little-endian unsigned value.
  Every call site below slices exactly two bytes out of a buffer whose length it has
  checked before.
\<close>

definition unpack_H :: "byte list \<Rightarrow> int" where
  "unpack_H b = uint (b ! 0) + 256 * uint (b ! 1)"

text \<open>\<^verbatim>\<open>_calculate_checksum\<close>: \<^verbatim>\<open>sum(data) & 0xFFFF\<close>; the sum of bytes is never negative,
  so the mask is the remainder modulo 65536.\<close>

definition calculate_checksum :: "byte list \<Rightarrow> int" where
  "calculate_checksum data = sum_list (map uint data) mod 65536"

text \<open>
  \<^verbatim>\<open>np.frombuffer(audio_data, dtype=np.int16)\<close>: little-endian 16-bit samples; numpy raises
  ValueError when the buffer size is not a multiple of the element size.
\<close>

datatype error = ValueError

fun frombuffer_int16 :: "byte list \<Rightarrow> error + int16 list" where
  "frombuffer_int16 [] = Inr []"
| "frombuffer_int16 [b] = Inl ValueError"
| "frombuffer_int16 (lo # hi # bs) =
     (case frombuffer_int16 bs of
        Inl e \<Rightarrow> Inl e
      | Inr xs \<Rightarrow> Inr (word_of_int (uint lo + 256 * uint hi) # xs))"

text \<open>\<^verbatim>\<open>ndarray.tobytes()\<close> of an int16 array (used by play.py, line 92).\<close>

fun tobytes :: "int16 list \<Rightarrow> byte list" where
  "tobytes [] = []"
| "tobytes (x # xs) = word_of_int (uint x mod 256) # word_of_int (uint x div 256) # tobytes xs"

subsection \<open>The sender's side of the wire format\<close>

text \<open>Modelled from the spec: a number \<open>0 \<le> n < 65536\<close> on the wire, as two bytes, low byte
  first (the sender's encoding of every header field and of the checksum).\<close>

definition pack_H :: "int \<Rightarrow> byte list" where
  "pack_H n = [word_of_int (n mod 256), word_of_int (n div 256)]"

text \<open>
  Modelled from the spec: the frame encoder, which runs on the sending device and is not
  among the sources. The wire format is magic \<open>0xAA55\<close>, sequence number, payload length
  in bytes, the payload, and the sum of all preceding frame bytes modulo 65536, each
  number as two bytes, little-endian. A sequence number or a length that does not fit
  16 bits has no encoding.
\<close>

definition encode_frame :: "int \<Rightarrow> byte list \<Rightarrow> byte list option" where
  "encode_frame seq payload =
     (if 0 \<le> seq \<and> seq < 65536 \<and> length payload < 65536 then
        (let body = pack_H FRAME_MAGIC @ pack_H seq @ pack_H (int (length payload)) @ payload
         in Some (body @ pack_H (calculate_checksum body)))
      else None)"

subsection \<open>Receiver state\<close>

text \<open>
  The serial port object, as far as the receiver uses it: the bytes the port holds
  unread (\<^verbatim>\<open>in_waiting\<close> is their number, \<^verbatim>\<open>read(in_waiting)\<close> returns them), and whether
  \<^verbatim>\<open>reset_input_buffer()\<close> raises.
\<close>

record serial =
  pending :: "byte list"
  reset_raises :: bool

text \<open>The \<^verbatim>\<open>stats\<close> dictionary of \<^verbatim>\<open>AudioFrameReceiver.__init__\<close>, lines 37-44; its keys are fixed.\<close>

record statistics =
  frames_received :: int
  frames_dropped :: int
  checksum_errors :: int
  sync_errors :: int
  bytes_received :: int
  last_seq :: "int option"

text \<open>
  The fields of \<^verbatim>\<open>AudioFrameReceiver\<close> that the frame logic reads or writes
  (\<^verbatim>\<open>port\<close>, \<^verbatim>\<open>baudrate\<close> and \<^verbatim>\<open>sample_rate\<close> are only passed to the serial library).
  \<^verbatim>\<open>ser\<close> is \<open>None\<close> until \<^verbatim>\<open>open()\<close> has succeeded.
\<close>

record receiver =
  ser :: "serial option"
  stats :: statistics
  buffer :: "byte list"

definition init_stats :: statistics where
  "init_stats = \<lparr>frames_received = 0, frames_dropped = 0, checksum_errors = 0,
     sync_errors = 0, bytes_received = 0, last_seq = None\<rparr>"

text \<open>The state after \<^verbatim>\<open>__init__\<close>, and after a successful \<^verbatim>\<open>open()\<close> (which leaves the port drained).\<close>

definition init_receiver :: receiver where
  "init_receiver = \<lparr>ser = None, stats = init_stats, buffer = []\<rparr>"

definition opened_receiver :: receiver where
  "opened_receiver = init_receiver\<lparr>ser := Some \<lparr>pending = [], reset_raises = False\<rparr>\<rparr>"

text \<open>The transport delivering bytes to the port between two calls of the receiver.\<close>

definition deliver :: "byte list \<Rightarrow> receiver \<Rightarrow> receiver" where
  "deliver bs r = r\<lparr>ser := map_option (\<lambda>p. p\<lparr>pending := pending p @ bs\<rparr>) (ser r)\<rparr>"

subsection \<open>Operations\<close>

text \<open>\<^verbatim>\<open>flush_backlog\<close>, lines 101-108: an exception of the port's reset is swallowed.\<close>

definition flush_backlog :: "receiver \<Rightarrow> receiver" where
  "flush_backlog r =
     (let r1 = r\<lparr>buffer := []\<rparr>
      in case ser r1 of
           None \<Rightarrow> r1
         | Some p \<Rightarrow> if reset_raises p then r1 else r1\<lparr>ser := Some (p\<lparr>pending := []\<rparr>)\<rparr>)"

text \<open>\<^verbatim>\<open>_find_sync\<close>, lines 110-118: drop bytes from the front until the buffer starts
  with the magic or has fewer than two bytes.\<close>

function find_sync :: "receiver \<Rightarrow> bool \<times> receiver" where
  "find_sync r =
     (if length (buffer r) \<ge> 2 then
        (if unpack_H (take 2 (buffer r)) = FRAME_MAGIC then (True, r)
         else find_sync (r\<lparr>buffer := tl (buffer r),
                stats := (stats r)\<lparr>sync_errors := sync_errors (stats r) + 1\<rparr>\<rparr>))
      else (False, r))"
  by pat_completeness auto
termination
  by (relation "measure (\<lambda>r. length (buffer r))") auto

declare find_sync.simps [simp del]

text \<open>
  \<^verbatim>\<open>receive_frame\<close>, lines 133-144: with a port, read everything it holds into the buffer, or
  return at once when it holds nothing. \<open>None\<close> is that early return.
\<close>

definition read_serial :: "receiver \<Rightarrow> receiver option" where
  "read_serial r =
     (case ser r of
        None \<Rightarrow> Some r
      | Some p \<Rightarrow>
          if length (pending p) > 0 then
            (let chunk = pending p
             in Some (r\<lparr>ser := Some (p\<lparr>pending := []\<rparr>),
                        buffer := buffer r @ chunk,
                        stats := (stats r)\<lparr>bytes_received :=
                                   bytes_received (stats r) + int (length chunk)\<rparr>\<rparr>))
          else None)"

text \<open>\<^verbatim>\<open>receive_frame\<close>, lines 175-183: sequence continuity, on the statistics.\<close>

definition check_sequence :: "statistics \<Rightarrow> int \<Rightarrow> statistics" where
  "check_sequence st seq_num =
     (let st1 = (case last_seq st of
                   None \<Rightarrow> st
                 | Some l \<Rightarrow>
                     let expected_seq = (l + 1) mod 65536
                     in if seq_num \<noteq> expected_seq then
                          (let dropped = (seq_num - expected_seq) mod 65536
                           in st\<lparr>frames_dropped := frames_dropped st + dropped\<rparr>)
                        else st)
      in st1\<lparr>last_seq := Some seq_num, frames_received := frames_received st1 + 1\<rparr>)"

text \<open>\<^verbatim>\<open>receive_frame\<close>, lines 146-189. The result is \<open>Inr None\<close> for \<^verbatim>\<open>return None\<close>,
  \<open>Inr (Some samples)\<close> for a frame and \<open>Inl e\<close> for an exception that leaves the method;
  the state is the object as the call leaves it.\<close>

definition parse_frame :: "receiver \<Rightarrow> (error + int16 list option) \<times> receiver" where
  "parse_frame r0 =
     (case find_sync r0 of
        (False, r) \<Rightarrow> (Inr None, r)
      | (True, r) \<Rightarrow>
          if length (buffer r) < FRAME_HEADER_SIZE then (Inr None, r)
          else
            let seq_num = unpack_H (take 2 (drop 2 (buffer r)));
                len = unpack_H (take 2 (drop 4 (buffer r)));
                frame_size = int FRAME_HEADER_SIZE + len + int CHECKSUM_SIZE
            in if int (length (buffer r)) < frame_size then (Inr None, r)
               else
                 let frame_data = take (nat frame_size) (buffer r);
                     r1 = r\<lparr>buffer := drop (nat frame_size) (buffer r)\<rparr>;
                     received_checksum =
                       unpack_H (drop (length frame_data - CHECKSUM_SIZE) frame_data);
                     calculated_checksum =
                       calculate_checksum (take (length frame_data - CHECKSUM_SIZE) frame_data)
                 in if received_checksum \<noteq> calculated_checksum then
                      (Inr None,
                       r1\<lparr>stats := (stats r1)\<lparr>checksum_errors :=
                                      checksum_errors (stats r1) + 1\<rparr>\<rparr>)
                    else
                      let r2 = r1\<lparr>stats := check_sequence (stats r1) seq_num\<rparr>;
                          audio_data = take (length frame_data - CHECKSUM_SIZE - FRAME_HEADER_SIZE)
                                         (drop FRAME_HEADER_SIZE frame_data)
                      in (case frombuffer_int16 audio_data of
                            Inl e \<Rightarrow> (Inl e, r2)
                          | Inr samples \<Rightarrow> (Inr (Some samples), r2)))"

definition receive_frame :: "receiver \<Rightarrow> (error + int16 list option) \<times> receiver" where
  "receive_frame r =
     (case read_serial r of
        None \<Rightarrow> (Inr None, r)
      | Some r1 \<Rightarrow> parse_frame r1)"

text \<open>The caller's loop, unrolled: \<open>n\<close> successive calls of \<^verbatim>\<open>receive_frame\<close> and their results.\<close>

fun receive_frames :: "nat \<Rightarrow> receiver \<Rightarrow> (error + int16 list option) list \<times> receiver" where
  "receive_frames 0 r = ([], r)"
| "receive_frames (Suc n) r =
     (let (x, r1) = receive_frame r;
          (xs, r2) = receive_frames n r1
      in (x # xs, r2))"

subsection \<open>Noise in front of a frame\<close>

text \<open>The two magic bytes \<open>0x55 0xAA\<close> occur next to each other somewhere in the bytes.\<close>

fun has_magic :: "byte list \<Rightarrow> bool" where
  "has_magic (a # b # bs) = ((a = 0x55 \<and> b = 0xAA) \<or> has_magic (b # bs))"
| "has_magic _ = False"

text \<open>
  The bytes start with a magic that is followed by a complete frame, as its length field
  delimits it, whose checksum is valid; and: some position inside the noise, read together
  with the bytes that follow the noise, is such a match.
\<close>

definition frame_match :: "byte list \<Rightarrow> bool" where
  "frame_match bs =
     (length bs \<ge> FRAME_HEADER_SIZE \<and> unpack_H (take 2 bs) = FRAME_MAGIC \<and>
      (let frame_size = FRAME_HEADER_SIZE + nat (unpack_H (take 2 (drop 4 bs))) + CHECKSUM_SIZE
       in length bs \<ge> frame_size \<and>
          unpack_H (take 2 (drop (frame_size - CHECKSUM_SIZE) bs))
            = calculate_checksum (take (frame_size - CHECKSUM_SIZE) bs)))"

definition coincidental_match :: "byte list \<Rightarrow> byte list \<Rightarrow> bool" where
  "coincidental_match noise rest =
     list_ex (\<lambda>i. frame_match (drop i (noise @ rest))) [0..<length noise]"

section \<open>Real-time player (scripts/usb_audio/play.py)\<close>

text \<open>
  The PyAudio output stream, as far as \<^verbatim>\<open>AudioPlayer\<close> uses it: what
  \<^verbatim>\<open>get_write_available()\<close> returns (\<open>None\<close> when it raises), whether \<^verbatim>\<open>write\<close> raises, and
  the buffers that \<^verbatim>\<open>write\<close> has accepted.
\<close>

record sink =
  write_available :: "int option"
  write_raises :: bool
  written :: "byte list list"

text \<open>The fields of \<^verbatim>\<open>AudioPlayer\<close>; \<open>frames_dropped_play\<close> is its \<^verbatim>\<open>frames_dropped\<close>
  (the receiver's statistics have a key of the same name).\<close>

record player =
  sample_rate :: int
  max_buffer_frames :: int
  stream :: "sink option"
  frames_dropped_play :: int

text \<open>
  \<^verbatim>\<open>get_buffer_latency_ms\<close>, lines 53-67. The result is a Python float; it is modelled as
  the exact quotient. A zero sample rate raises ZeroDivisionError inside the
  \<^verbatim>\<open>try\<close>, which the bare \<^verbatim>\<open>except\<close> turns into \<open>0.0\<close>.
\<close>

definition get_buffer_latency_ms :: "player \<Rightarrow> real" where
  "get_buffer_latency_ms p =
     (case stream p of
        None \<Rightarrow> 0
      | Some st \<Rightarrow>
          (case write_available st of
             None \<Rightarrow> 0
           | Some available \<Rightarrow>
               let estimated_total = 60 * 4;
                   queued = max 0 (estimated_total - available)
               in if sample_rate p = 0 then 0
                  else real_of_int queued * 1000 / real_of_int (sample_rate p)))"

text \<open>\<^verbatim>\<open>play\<close>, lines 69-97: \<open>True\<close> if played, \<open>False\<close> if dropped. An exception of
  \<^verbatim>\<open>get_write_available\<close> is swallowed and the write is attempted.\<close>

definition play :: "player \<Rightarrow> int16 list \<Rightarrow> bool \<Rightarrow> bool \<times> player" where
  "play p audio_data drop_if_buffer_full =
     (case stream p of
        None \<Rightarrow> (False, p)
      | Some st \<Rightarrow>
          if drop_if_buffer_full \<and>
             (case write_available st of
                None \<Rightarrow> False
              | Some available \<Rightarrow> available < int (length audio_data) * 2)
          then (False, p\<lparr>frames_dropped_play := frames_dropped_play p + 1\<rparr>)
          else if write_raises st then
            (False, p\<lparr>frames_dropped_play := frames_dropped_play p + 1\<rparr>)
          else
            (True, p\<lparr>stream := Some (st\<lparr>written := written st @ [tobytes audio_data]\<rparr>)\<rparr>))"

section \<open>Facts about the byte codecs\<close>

lemma uint_byte_bounds: "0 \<le> uint (b::byte) \<and> uint b < 256"
  using uint_lt2p [of b] by simp

lemma unpack_H_pair [simp]: "unpack_H [a, b] = uint a + 256 * uint b"
  by (simp add: unpack_H_def)

lemma unpack_H_range: "0 \<le> unpack_H [a, b] \<and> unpack_H [a, b] < 65536"
  using uint_byte_bounds [of a] uint_byte_bounds [of b] by simp

lemma le16_mod: "(uint (a::byte) + 256 * y) mod 256 = uint a"
  using uint_byte_bounds [of a] by simp

lemma le16_div: "(uint (a::byte) + 256 * y) div 256 = y"
  using uint_byte_bounds [of a] by simp

lemma unpack_H_inject:
  "unpack_H [a, b] = unpack_H [c, d] \<longleftrightarrow> a = c \<and> b = d"
proof
  assume "unpack_H [a, b] = unpack_H [c, d]"
  then have e: "uint a + 256 * uint b = uint c + 256 * uint d" by simp
  from e have "(uint a + 256 * uint b) mod 256 = (uint c + 256 * uint d) mod 256" by simp
  then have 1: "uint a = uint c" by (simp only: le16_mod)
  from e have "(uint a + 256 * uint b) div 256 = (uint c + 256 * uint d) div 256" by simp
  then have 2: "uint b = uint d" by (simp only: le16_div)
  from 1 2 show "a = c \<and> b = d" by (simp add: word_uint_eq_iff)
qed simp

lemma unpack_H_magic: "unpack_H [a, b] = FRAME_MAGIC \<longleftrightarrow> a = 0x55 \<and> b = 0xAA"
proof -
  have "unpack_H [0x55, 0xAA :: byte] = FRAME_MAGIC" by simp
  then show ?thesis using unpack_H_inject [of a b "0x55" "0xAA"] by simp
qed

lemma uint_int16_of_int: "0 \<le> v \<Longrightarrow> v < 65536 \<Longrightarrow> uint (word_of_int v :: int16) = v"
  by (simp add: uint_word_of_int)

lemma uint_byte_of_int: "0 \<le> v \<Longrightarrow> v < 256 \<Longrightarrow> uint (word_of_int v :: byte) = v"
  by (simp add: uint_word_of_int)

lemma frombuffer_even:
  "even (length bs) \<Longrightarrow> \<exists>xs. frombuffer_int16 bs = Inr xs \<and> tobytes xs = bs \<and> 2 * length xs = length bs"
proof (induction bs rule: frombuffer_int16.induct)
  case 1
  then show ?case by simp
next
  case (2 b)
  then show ?case by simp
next
  case (3 lo hi bs)
  then obtain xs where xs: "frombuffer_int16 bs = Inr xs" "tobytes xs = bs" "2 * length xs = length bs"
    by auto
  let ?v = "uint lo + 256 * uint hi"
  have r: "0 \<le> ?v" "?v < 65536"
    using uint_byte_bounds [of lo] uint_byte_bounds [of hi] by auto
  have u: "uint (word_of_int ?v :: int16) = ?v"
    using r uint_int16_of_int [of ?v] by blast
  have "tobytes [word_of_int ?v :: int16] = [lo, hi]"
    unfolding tobytes.simps u le16_mod le16_div by simp
  then show ?case using xs by simp
qed

lemma frombuffer_odd: "odd (length bs) \<Longrightarrow> frombuffer_int16 bs = Inl ValueError"
  by (induction bs rule: frombuffer_int16.induct) auto

section \<open>Facts about synchronisation and parsing\<close>

lemma find_sync_magic: "buffer r = 0x55 # 0xAA # rest \<Longrightarrow> find_sync r = (True, r)"
  by (subst find_sync.simps) (simp add: unpack_H_magic)

lemma find_sync_short: "length (buffer r) < 2 \<Longrightarrow> find_sync r = (False, r)"
  by (subst find_sync.simps) simp

lemma parse_frame_at:
  assumes buf: "buffer r = 0x55 # 0xAA # s0 # s1 # l0 # l1 # payload @ c0 # c1 # rest"
    and len: "unpack_H [l0, l1] = int (length payload)"
  shows "parse_frame r =
    (if unpack_H [c0, c1] \<noteq> calculate_checksum (0x55 # 0xAA # s0 # s1 # l0 # l1 # payload)
     then (Inr None, r\<lparr>buffer := rest,
              stats := (stats r)\<lparr>checksum_errors := checksum_errors (stats r) + 1\<rparr>\<rparr>)
     else (case frombuffer_int16 payload of
             Inl e \<Rightarrow> (Inl e, r\<lparr>buffer := rest, stats := check_sequence (stats r) (unpack_H [s0, s1])\<rparr>)
           | Inr samples \<Rightarrow> (Inr (Some samples),
                r\<lparr>buffer := rest, stats := check_sequence (stats r) (unpack_H [s0, s1])\<rparr>)))"
proof -
  let ?hdr = "[0x55, 0xAA, s0, s1, l0, l1]"
  let ?f = "?hdr @ payload @ [c0, c1]"
  have b: "buffer r = ?f @ rest" using buf by simp
  have fs: "find_sync r = (True, r)" using buf by (rule find_sync_magic)
  have l6: "\<not> length (buffer r) < 6" using buf by simp
  have sq: "unpack_H (take 2 (drop 2 (buffer r))) = unpack_H [s0, s1]" using buf by simp
  have ln: "unpack_H (take 2 (drop 4 (buffer r))) = int (length payload)"
    using buf len by simp
  have n: "nat (int 6 + int (length payload) + int 2) = length ?f" by simp
  have ge: "\<not> int (length (buffer r)) < int 6 + int (length payload) + int 2"
    using buf by simp
  have tk: "take (length ?f) (buffer r) = ?f" unfolding b by simp
  have dr: "drop (length ?f) (buffer r) = rest" unfolding b by simp
  have ck: "drop (length ?f - 2) ?f = [c0, c1]" by simp
  have bd: "take (length ?f - 2) ?f = ?hdr @ payload" by simp
  have au: "take (length ?f - 2 - 6) (drop 6 ?f) = payload" by simp
  show ?thesis
    unfolding parse_frame_def fs
    apply (simp only: prod.case bool.case l6 if_False Let_def sq ln n ge tk dr ck bd au)
    apply (simp split: sum.splits)
    done
qed

section \<open>Encoded frames are accepted\<close>

lemma unpack_pack_H: "0 \<le> n \<Longrightarrow> n < 65536 \<Longrightarrow> unpack_H (pack_H n) = n"
proof -
  assume n: "0 \<le> n" "n < 65536"
  have a: "uint (word_of_int (n mod 256) :: byte) = n mod 256"
    by (rule uint_byte_of_int) simp_all
  have b: "uint (word_of_int (n div 256) :: byte) = n div 256"
    using n by (intro uint_byte_of_int) auto
  show ?thesis unfolding pack_H_def unpack_H_pair a b by simp
qed

lemma pack_H_magic: "pack_H FRAME_MAGIC = [0x55, 0xAA]"
  by (simp add: pack_H_def)

lemma calculate_checksum_range: "0 \<le> calculate_checksum d \<and> calculate_checksum d < 65536"
  by (simp add: calculate_checksum_def)

lemma encode_frame_shape:
  assumes "encode_frame seq payload = Some f"
  shows "\<exists>s0 s1 l0 l1 c0 c1.
           f = 0x55 # 0xAA # s0 # s1 # l0 # l1 # payload @ [c0, c1]
         \<and> unpack_H [s0, s1] = seq
         \<and> unpack_H [l0, l1] = int (length payload)
         \<and> unpack_H [c0, c1] = calculate_checksum (0x55 # 0xAA # s0 # s1 # l0 # l1 # payload)"
proof -
  from assms have r: "0 \<le> seq" "seq < 65536" "length payload < 65536"
    by (auto simp: encode_frame_def split: if_splits)
  obtain s0 s1 where s: "pack_H seq = [s0, s1]" by (simp add: pack_H_def)
  obtain l0 l1 where l: "pack_H (int (length payload)) = [l0, l1]" by (simp add: pack_H_def)
  let ?body = "0x55 # 0xAA # s0 # s1 # l0 # l1 # payload"
  obtain c0 c1 where c: "pack_H (calculate_checksum ?body) = [c0, c1]" by (simp add: pack_H_def)
  have f: "f = ?body @ [c0, c1]"
    using assms r by (simp add: encode_frame_def Let_def pack_H_magic s l c)
  have 1: "unpack_H [s0, s1] = seq" using unpack_pack_H [OF r(1,2)] s by simp
  have 2: "unpack_H [l0, l1] = int (length payload)"
    using unpack_pack_H [of "int (length payload)"] r(3) l by simp
  have 3: "unpack_H [c0, c1] = calculate_checksum ?body"
    using unpack_pack_H [of "calculate_checksum ?body"] calculate_checksum_range [of ?body] c
    by simp
  from f 1 2 3 show ?thesis by auto
qed

lemma encode_frame_length: "encode_frame seq payload = Some f \<Longrightarrow> length f = length payload + 8"
  by (auto simp: encode_frame_def Let_def pack_H_def split: if_splits)

lemma parse_frame_encoded:
  assumes enc: "encode_frame seq payload = Some f"
    and buf: "buffer r = f @ rest"
  shows "parse_frame r =
     (case frombuffer_int16 payload of
        Inl e \<Rightarrow> (Inl e, r\<lparr>buffer := rest, stats := check_sequence (stats r) seq\<rparr>)
      | Inr samples \<Rightarrow> (Inr (Some samples), r\<lparr>buffer := rest, stats := check_sequence (stats r) seq\<rparr>))"
proof -
  from encode_frame_shape [OF enc] obtain s0 s1 l0 l1 c0 c1 where
    f: "f = 0x55 # 0xAA # s0 # s1 # l0 # l1 # payload @ [c0, c1]"
    and s: "unpack_H [s0, s1] = seq"
    and l: "unpack_H [l0, l1] = int (length payload)"
    and c: "unpack_H [c0, c1] = calculate_checksum (0x55 # 0xAA # s0 # s1 # l0 # l1 # payload)"
    by blast
  have b: "buffer r = 0x55 # 0xAA # s0 # s1 # l0 # l1 # payload @ c0 # c1 # rest"
    using buf f by simp
  show ?thesis
    unfolding parse_frame_at [OF b l] c s by simp
qed

section \<open>Facts about a whole call\<close>

lemma receive_frame_no_port: "ser r = None \<Longrightarrow> receive_frame r = parse_frame r"
  by (simp add: receive_frame_def read_serial_def)


lemma receive_frame_idle:
  "ser r = Some p \<Longrightarrow> pending p = [] \<Longrightarrow> receive_frame r = (Inr None, r)"
  by (simp add: receive_frame_def read_serial_def)


lemma receive_frame_read: "read_serial r = Some r0 \<Longrightarrow> receive_frame r = parse_frame r0"
  by (simp add: receive_frame_def)

lemma read_serial_stats:
  "read_serial r = Some r0 \<Longrightarrow>
     last_seq (stats r0) = last_seq (stats r)
   \<and> frames_dropped (stats r0) = frames_dropped (stats r)
   \<and> frames_received (stats r0) = frames_received (stats r)
   \<and> checksum_errors (stats r0) = checksum_errors (stats r)
   \<and> sync_errors (stats r0) = sync_errors (stats r)"
  by (auto simp: read_serial_def Let_def split: option.splits if_splits)

lemma read_serial_no_port: "ser r = None \<Longrightarrow> read_serial r = Some r"
  by (simp add: read_serial_def)

lemma snd_parse_frame_encoded:
  "encode_frame seq payload = Some f \<Longrightarrow> buffer r = f @ rest \<Longrightarrow>
   snd (parse_frame r) = r\<lparr>buffer := rest, stats := check_sequence (stats r) seq\<rparr>"
  by (simp add: parse_frame_encoded split: sum.splits)

lemma check_sequence_last_seq: "last_seq (check_sequence st seq) = Some seq"
  by (simp add: check_sequence_def Let_def split: option.splits)

lemma check_sequence_dropped:
  "last_seq st = Some l \<Longrightarrow>
   frames_dropped (check_sequence st seq) =
     frames_dropped st + (if seq \<noteq> (l + 1) mod 65536 then (seq - (l + 1) mod 65536) mod 65536 else 0)"
  by (simp add: check_sequence_def Let_def)

lemma encode_5: "encode_frame 5 [] = Some [0x55, 0xAA, 5, 0, 0, 0, 4, 1]"
  by (simp add: encode_frame_def pack_H_def calculate_checksum_def Let_def)

lemma encode_9: "encode_frame 9 [] = Some [0x55, 0xAA, 9, 0, 0, 0, 8, 1]"
  by (simp add: encode_frame_def pack_H_def calculate_checksum_def Let_def)

lemma parse_frame_odd:
  "encode_frame seq payload = Some f \<Longrightarrow> odd (length payload) \<Longrightarrow> buffer r = f @ rest \<Longrightarrow>
   parse_frame r = (Inl ValueError, r\<lparr>buffer := rest, stats := check_sequence (stats r) seq\<rparr>)"
  by (simp add: parse_frame_encoded frombuffer_odd)

lemma encode_odd: "encode_frame 0 [7] = Some [0x55, 0xAA, 0, 0, 1, 0, 7, 7, 1]"
  by (simp add: encode_frame_def pack_H_def calculate_checksum_def Let_def)

section \<open>Facts about the sync search\<close>

lemma find_sync_idem: "find_sync r = (b, r1) \<Longrightarrow> find_sync r1 = (b, r1)"
proof (induction r rule: find_sync.induct)
  case (1 r)
  show ?case
  proof (cases "length (buffer r) \<ge> 2")
    case False
    with "1.prems" show ?thesis by (subst (asm) find_sync.simps) (auto simp: find_sync_short)
  next
    case long: True
    show ?thesis
    proof (cases "unpack_H (take 2 (buffer r)) = FRAME_MAGIC")
      case True
      with long "1.prems" have "b = True \<and> r1 = r" by (subst (asm) find_sync.simps) auto
      moreover from long True have "find_sync r = (True, r)" by (subst find_sync.simps) simp
      ultimately show ?thesis by simp
    next
      case False
      with long "1.prems" have
        "find_sync (r\<lparr>buffer := tl (buffer r),
            stats := (stats r)\<lparr>sync_errors := sync_errors (stats r) + 1\<rparr>\<rparr>) = (b, r1)"
        by (subst (asm) find_sync.simps) simp
      with "1.IH" [OF long False] show ?thesis by simp
    qed
  qed
qed

lemma parse_frame_sync: "find_sync r = (b, r1) \<Longrightarrow> parse_frame r = parse_frame r1"
  by (simp add: parse_frame_def find_sync_idem)

lemma find_sync_noise:
  "\<not> has_magic noise \<Longrightarrow> buffer r = noise @ 0x55 # 0xAA # rest \<Longrightarrow>
   find_sync r = (True, r\<lparr>buffer := 0x55 # 0xAA # rest,
       stats := (stats r)\<lparr>sync_errors := sync_errors (stats r) + int (length noise)\<rparr>\<rparr>)"
proof (induction noise arbitrary: r)
  case Nil
  then show ?case by (simp add: find_sync_magic)
next
  case (Cons a ns)
  let ?r' = "r\<lparr>buffer := tl (buffer r),
                stats := (stats r)\<lparr>sync_errors := sync_errors (stats r) + 1\<rparr>\<rparr>"
  have nm: "unpack_H (take 2 (buffer r)) \<noteq> FRAME_MAGIC"
  proof (cases ns)
    case Nil
    with Cons.prems show ?thesis by (simp add: unpack_H_magic del: unpack_H_pair)
  next
    case (Cons b ns')
    with Cons.prems show ?thesis by (simp add: unpack_H_magic del: unpack_H_pair)
  qed
  have ns: "\<not> has_magic ns" using Cons.prems(1) by (cases ns) auto
  have b': "buffer ?r' = ns @ 0x55 # 0xAA # rest" using Cons.prems(2) by simp
  have "find_sync r = find_sync ?r'"
    using nm Cons.prems(2) by (subst find_sync.simps) simp
  also have "\<dots> = (True, ?r'\<lparr>buffer := 0x55 # 0xAA # rest,
       stats := (stats ?r')\<lparr>sync_errors := sync_errors (stats ?r') + int (length ns)\<rparr>\<rparr>)"
    by (rule Cons.IH [OF ns b'])
  finally show ?case by (simp add: add.assoc)
qed

lemma find_sync_no_magic: "\<not> has_magic noise \<Longrightarrow> buffer r = noise \<Longrightarrow> fst (find_sync r) = False"
proof (induction noise arbitrary: r rule: has_magic.induct)
  case (1 a b bs)
  let ?r' = "r\<lparr>buffer := tl (buffer r),
                stats := (stats r)\<lparr>sync_errors := sync_errors (stats r) + 1\<rparr>\<rparr>"
  have nm: "unpack_H (take 2 (buffer r)) \<noteq> FRAME_MAGIC"
    using "1.prems" by (simp add: unpack_H_magic del: unpack_H_pair)
  have "find_sync r = find_sync ?r'"
    using nm "1.prems"(2) by (subst find_sync.simps) simp
  moreover have "fst (find_sync ?r') = False"
    using "1.prems" by (intro "1.IH") auto
  ultimately show ?case by simp
qed (simp_all add: find_sync_short)

lemma check_sequence_counters:
  "sync_errors (check_sequence st seq) = sync_errors st
 \<and> checksum_errors (check_sequence st seq) = checksum_errors st
 \<and> bytes_received (check_sequence st seq) = bytes_received st
 \<and> frames_received (check_sequence st seq) = frames_received st + 1"
  by (simp add: check_sequence_def Let_def split: option.splits)

lemma parse_frame_after_noise:
  assumes nm: "\<not> has_magic noise"
    and enc: "encode_frame seq payload = Some f"
    and buf: "buffer r = noise @ f @ rest"
  shows "parse_frame r =
     (case frombuffer_int16 payload of
        Inl e \<Rightarrow> (Inl e, r\<lparr>buffer := rest, stats := check_sequence
            ((stats r)\<lparr>sync_errors := sync_errors (stats r) + int (length noise)\<rparr>) seq\<rparr>)
      | Inr samples \<Rightarrow> (Inr (Some samples), r\<lparr>buffer := rest, stats := check_sequence
            ((stats r)\<lparr>sync_errors := sync_errors (stats r) + int (length noise)\<rparr>) seq\<rparr>))"
proof -
  from encode_frame_shape [OF enc] obtain t where f: "f = 0x55 # 0xAA # t" by blast
  let ?r1 = "r\<lparr>buffer := 0x55 # 0xAA # t @ rest,
       stats := (stats r)\<lparr>sync_errors := sync_errors (stats r) + int (length noise)\<rparr>\<rparr>"
  have "find_sync r = (True, ?r1)"
    using find_sync_noise [OF nm, of r "t @ rest"] buf f by simp
  then have "parse_frame r = parse_frame ?r1" by (rule parse_frame_sync)
  moreover have "buffer ?r1 = f @ rest" using f by simp
  ultimately show ?thesis
    by (simp add: parse_frame_encoded [OF enc] split: sum.splits)
qed

lemma encode_0: "encode_frame 0 [] = Some [0x55, 0xAA, 0, 0, 0, 0, 0xFF, 0]"
  by (simp add: encode_frame_def pack_H_def calculate_checksum_def Let_def)

lemma read_serial_delivered:
  "bs \<noteq> [] \<Longrightarrow> read_serial (deliver bs opened_receiver) =
     Some \<lparr>ser = Some \<lparr>pending = [], reset_raises = False\<rparr>,
           stats = init_stats\<lparr>bytes_received := int (length bs)\<rparr>, buffer = bs\<rparr>"
  by (simp add: read_serial_def deliver_def opened_receiver_def init_receiver_def init_stats_def Let_def)

section \<open>Facts about corrupted bytes\<close>

lemma flip_bit_byte_neq: "j < 8 \<Longrightarrow> flip_bit j (b :: byte) \<noteq> b"
proof
  assume j: "j < 8" and e: "flip_bit j b = b"
  have "bit (flip_bit j b) j \<longleftrightarrow> \<not> bit b j"
    using j by (simp add: bit_flip_bit_iff)
  with e show False by simp
qed

lemma calculate_checksum_changes:
  assumes "a \<noteq> (b :: byte)"
  shows "calculate_checksum (xs @ a # ys) \<noteq> calculate_checksum (xs @ b # ys)"
proof
  let ?T = "sum_list (map uint xs) + sum_list (map uint ys)"
  assume "calculate_checksum (xs @ a # ys) = calculate_checksum (xs @ b # ys)"
  then have "(?T + uint a) mod 65536 = (?T + uint b) mod 65536"
    by (simp add: calculate_checksum_def ac_simps)
  then have "65536 dvd (?T + uint a) - (?T + uint b)"
    by (simp only: mod_eq_dvd_iff)
  then have d: "65536 dvd uint a - uint b" by simp
  have ne: "uint a - uint b \<noteq> 0" using assms by (simp add: word_uint_eq_iff)
  have "\<bar>uint a - uint b\<bar> < 256"
    using uint_byte_bounds [of a] uint_byte_bounds [of b] by linarith
  moreover from d ne have "\<bar>65536 :: int\<bar> \<le> \<bar>uint a - uint b\<bar>"
    by (rule dvd_imp_le_int [rotated])
  ultimately show False by simp
qed

lemma parse_frame_bad_checksum:
  assumes buf: "buffer r = 0x55 # 0xAA # s0 # s1 # l0 # l1 # payload @ c0 # c1 # rest"
    and len: "unpack_H [l0, l1] = int (length payload)"
    and bad: "unpack_H [c0, c1] \<noteq> calculate_checksum (0x55 # 0xAA # s0 # s1 # l0 # l1 # payload)"
  shows "parse_frame r = (Inr None, r\<lparr>buffer := rest,
              stats := (stats r)\<lparr>checksum_errors := checksum_errors (stats r) + 1\<rparr>\<rparr>)"
  unfolding parse_frame_at [OF buf len] using bad by (simp del: unpack_H_pair)

lemma parse_frame_corrupted:
  assumes enc: "encode_frame seq payload = Some f"
    and pos: "i = 2 \<or> i = 3 \<or> (6 \<le> i \<and> i < 6 + length payload)"
    and ne: "v \<noteq> f ! i"
    and buf: "buffer r = f[i := v] @ rest"
  shows "parse_frame r = (Inr None, r\<lparr>buffer := rest,
              stats := (stats r)\<lparr>checksum_errors := checksum_errors (stats r) + 1\<rparr>\<rparr>)"
proof -
  from encode_frame_shape [OF enc] obtain s0 s1 l0 l1 c0 c1 where
    f: "f = 0x55 # 0xAA # s0 # s1 # l0 # l1 # payload @ [c0, c1]"
    and l: "unpack_H [l0, l1] = int (length payload)"
    and c: "unpack_H [c0, c1] = calculate_checksum (0x55 # 0xAA # s0 # s1 # l0 # l1 # payload)"
    by blast
  from pos consider "i = 2" | "i = 3" | "6 \<le> i" "i < 6 + length payload" by blast
  then show ?thesis
  proof cases
    case 1
    have b: "buffer r = 0x55 # 0xAA # v # s1 # l0 # l1 # payload @ c0 # c1 # rest"
      using buf f 1 by (simp add: numeral_2_eq_2)
    have "v \<noteq> s0" using ne f 1 by (simp add: numeral_2_eq_2)
    from calculate_checksum_changes [OF this, of "[0x55, 0xAA]" "s1 # l0 # l1 # payload"]
    have "unpack_H [c0, c1] \<noteq> calculate_checksum (0x55 # 0xAA # v # s1 # l0 # l1 # payload)"
      using c by (simp del: unpack_H_pair)
    then show ?thesis by (rule parse_frame_bad_checksum [OF b l])
  next
    case 2
    have b: "buffer r = 0x55 # 0xAA # s0 # v # l0 # l1 # payload @ c0 # c1 # rest"
      using buf f 2 by (simp add: numeral_3_eq_3)
    have "v \<noteq> s1" using ne f 2 by (simp add: numeral_3_eq_3)
    from calculate_checksum_changes [OF this, of "[0x55, 0xAA, s0]" "l0 # l1 # payload"]
    have "unpack_H [c0, c1] \<noteq> calculate_checksum (0x55 # 0xAA # s0 # v # l0 # l1 # payload)"
      using c by (simp del: unpack_H_pair)
    then show ?thesis by (rule parse_frame_bad_checksum [OF b l])
  next
    case 3
    define k where "k = i - 6"
    have k: "k < length payload" "i = k + 6" using 3 by (simp_all add: k_def)
    let ?hdr = "[0x55, 0xAA, s0, s1, l0, l1]"
    define hdr where "hdr = ?hdr"
    have lh: "length hdr = 6" by (simp add: hdr_def)
    have fa: "f = hdr @ payload @ [c0, c1]" using f by (simp add: hdr_def)
    have fi: "f ! i = payload ! k"
      unfolding fa k(2) using k(1) lh by (simp add: nth_append)
    have "f[i := v] = hdr @ payload[k := v] @ [c0, c1]"
      unfolding fa k(2) using k(1) lh by (simp add: list_update_append)
    then have fu: "f[i := v] = ?hdr @ payload[k := v] @ [c0, c1]"
      by (simp add: hdr_def)
    have b: "buffer r = 0x55 # 0xAA # s0 # s1 # l0 # l1 # payload[k := v] @ c0 # c1 # rest"
      using buf fu by simp
    have l': "unpack_H [l0, l1] = int (length (payload[k := v]))" using l by simp
    have p1: "payload = take k payload @ payload ! k # drop (Suc k) payload"
      using k(1) by (rule id_take_nth_drop)
    have p2: "payload[k := v] = take k payload @ v # drop (Suc k) payload"
      using k(1) by (rule upd_conv_take_nth_drop)
    have "v \<noteq> payload ! k" using ne fi by simp
    from calculate_checksum_changes [OF this, of "?hdr @ take k payload" "drop (Suc k) payload"]
    have "calculate_checksum (?hdr @ payload[k := v]) \<noteq> calculate_checksum (?hdr @ payload)"
      using p1 p2 by (metis append_assoc)
    then have "unpack_H [c0, c1] \<noteq> calculate_checksum (0x55 # 0xAA # s0 # s1 # l0 # l1 # payload[k := v])"
      using c by (simp del: unpack_H_pair)
    then show ?thesis by (rule parse_frame_bad_checksum [OF b l'])
  qed
qed

section \<open>Facts about partial frames\<close>

lemma parse_frame_partial:
  assumes enc: "encode_frame seq payload = Some f"
    and k: "k < length f"
    and buf: "buffer r = take k f"
  shows "parse_frame r = (Inr None, r)"
proof -
  from encode_frame_shape [OF enc] obtain s0 s1 l0 l1 c0 c1 where
    f: "f = 0x55 # 0xAA # s0 # s1 # l0 # l1 # payload @ [c0, c1]"
    and l: "unpack_H [l0, l1] = int (length payload)"
    by blast
  have lb: "length (buffer r) = k" using buf k by simp
  consider "k < 2" | "2 \<le> k" "k < 6" | "6 \<le> k" by linarith
  then show ?thesis
  proof cases
    case 1
    then have "find_sync r = (False, r)" using lb by (intro find_sync_short) simp
    then show ?thesis by (simp add: parse_frame_def)
  next
    case 2
    define k' where "k' = k - 2"
    have k': "k = Suc (Suc k')" using 2 by (simp add: k'_def)
    have "buffer r = 0x55 # 0xAA # take k' (s0 # s1 # l0 # l1 # payload @ [c0, c1])"
      using buf f k' by simp
    then have "find_sync r = (True, r)" by (rule find_sync_magic)
    then show ?thesis using lb 2 by (simp add: parse_frame_def)
  next
    case 3
    define k' where "k' = k - 6"
    have k': "k = Suc (Suc (Suc (Suc (Suc (Suc k')))))" using 3 by (simp add: k'_def)
    have b: "buffer r = 0x55 # 0xAA # s0 # s1 # l0 # l1 # take k' (payload @ [c0, c1])"
      using buf f k' by simp
    then have fs: "find_sync r = (True, r)" by (rule find_sync_magic)
    have sz: "int (length (buffer r)) < int 6 + int (length payload) + int 2"
      using lb k f by simp
    have ln: "unpack_H (take 2 (drop 4 (buffer r))) = int (length payload)"
      using b l by simp
    show ?thesis
      unfolding parse_frame_def fs using lb 3 sz ln by (simp add: Let_def)
  qed
qed

lemma parse_frame_empty: "buffer r = [] \<Longrightarrow> parse_frame r = (Inr None, r)"
  by (simp add: parse_frame_def find_sync_short)

lemma deliver_nothing: "ser r = Some p \<Longrightarrow> deliver [] r = r"
  by (cases r) (simp add: deliver_def)

lemma read_serial_deliver:
  assumes "ser r = Some p" "pending p = []" "bs \<noteq> []"
  shows "read_serial (deliver bs r) =
     Some (r\<lparr>buffer := buffer r @ bs,
            stats := (stats r)\<lparr>bytes_received := bytes_received (stats r) + int (length bs)\<rparr>\<rparr>)"
  using assms by (cases r, cases p) (simp add: read_serial_def deliver_def Let_def)

section \<open>Facts about what a returned frame consumes\<close>

lemma find_sync_length: "find_sync r = (b, r1) \<Longrightarrow> length (buffer r1) \<le> length (buffer r)"
proof (induction r rule: find_sync.induct)
  case (1 r)
  show ?case
  proof (cases "length (buffer r) \<ge> 2 \<and> unpack_H (take 2 (buffer r)) \<noteq> FRAME_MAGIC")
    case False
    with "1.prems" have "r1 = r" by (subst (asm) find_sync.simps) (auto split: if_splits)
    then show ?thesis by simp
  next
    case True
    let ?r' = "r\<lparr>buffer := tl (buffer r),
            stats := (stats r)\<lparr>sync_errors := sync_errors (stats r) + 1\<rparr>\<rparr>"
    from True "1.prems" have "find_sync ?r' = (b, r1)"
      by (subst (asm) find_sync.simps) simp
    with "1.IH" [of] True have "length (buffer r1) \<le> length (buffer ?r')" by simp
    then show ?thesis by simp
  qed
qed

lemma frombuffer_length: "frombuffer_int16 bs = Inr xs \<Longrightarrow> length bs = 2 * length xs"
  by (induction bs arbitrary: xs rule: frombuffer_int16.induct) (auto split: sum.splits)

lemma unpack_H_nonneg: "0 \<le> unpack_H bs"
  by (simp add: unpack_H_def)

lemma parse_frame_Some_length:
  assumes "parse_frame r = (Inr (Some xs), r')"
  shows "2 * length xs + 8 \<le> length (buffer r)"
proof -
  obtain b r1 where fs: "find_sync r = (b, r1)" by (cases "find_sync r")
  let ?len = "unpack_H (take 2 (drop 4 (buffer r1)))"
  let ?n = "nat (int 6 + ?len + int 2)"
  let ?fd = "take ?n (buffer r1)"
  have n: "?n = nat ?len + 8" using unpack_H_nonneg [of "take 2 (drop 4 (buffer r1))"] by simp
  from assms fs have ge: "\<not> int (length (buffer r1)) < int 6 + ?len + int 2"
    and fb: "frombuffer_int16 (take (length ?fd - 2 - 6) (drop 6 ?fd)) = Inr xs"
    by (auto simp: parse_frame_def Let_def split: if_splits sum.splits bool.splits)
  from ge have le: "?n \<le> length (buffer r1)" by linarith
  then have lfd: "length ?fd = ?n" by simp
  have "length (take (length ?fd - 2 - 6) (drop 6 ?fd)) = nat ?len"
    using le n by simp
  with frombuffer_length [OF fb] have "2 * length xs = nat ?len" by simp
  with n le find_sync_length [OF fs] show ?thesis by linarith
qed

lemma flush_backlog_buffer: "buffer (flush_backlog r) = []"
  by (simp add: flush_backlog_def Let_def split: option.splits)

lemma flush_backlog_stats: "stats (flush_backlog r) = stats r"
  by (simp add: flush_backlog_def Let_def split: option.splits)

lemma flush_backlog_port:
  "ser r = Some p \<Longrightarrow> pending p = [] \<Longrightarrow>
   \<exists>p'. ser (flush_backlog r) = Some p' \<and> pending p' = []"
  by (simp add: flush_backlog_def Let_def)

section \<open>Facts about the loop of calls\<close>

lemma frombuffer_tobytes: "frombuffer_int16 (tobytes xs) = Inr xs"
proof (induction xs)
  case Nil
  then show ?case by simp
next
  case (Cons x xs)
  have b: "0 \<le> uint x" "uint x < 65536" using uint_lt2p [of x] by simp_all
  have lo: "uint (word_of_int (uint x mod 256) :: byte) = uint x mod 256"
    by (rule uint_byte_of_int) simp_all
  have "0 \<le> uint x div 256" by (simp add: div_int_pos_iff)
  moreover have "uint x div 256 < 256" using b by simp
  ultimately have hi: "uint (word_of_int (uint x div 256) :: byte) = uint x div 256"
    by (rule uint_byte_of_int)
  have "word_of_int (uint x mod 256 + 256 * (uint x div 256)) = x" by simp
  then show ?case using Cons.IH by (simp only: tobytes.simps frombuffer_int16.simps lo hi sum.case)
qed

lemma parse_frame_no_magic:
  "\<not> has_magic noise \<Longrightarrow> buffer r = noise \<Longrightarrow> fst (parse_frame r) = Inr None"
  using find_sync_no_magic [of noise r]
  by (cases "find_sync r") (simp add: parse_frame_def)

lemma receive_frames_drain:
  assumes "list_all2 (\<lambda>(seq, samples) f. encode_frame seq (tobytes samples) = Some f) ps fs"
    and "ser r = None"
    and "\<not> has_magic noise"
    and "buffer r = noise @ concat fs"
  shows "fst (receive_frames (Suc (length ps)) r) =
           map (\<lambda>(seq, samples). Inr (Some samples)) ps @ [Inr None]"
  using assms
proof (induction ps fs arbitrary: r noise rule: list_all2_induct)
  case Nil
  then have "fst (receive_frame r) = Inr None"
    by (simp add: receive_frame_no_port parse_frame_no_magic)
  then show ?case by (simp add: split_beta)
next
  case (Cons x ps f fs)
  obtain seq samples where x: "x = (seq, samples)" by (cases x)
  with Cons.hyps(1) have enc: "encode_frame seq (tobytes samples) = Some f" by simp
  let ?r1 = "r\<lparr>buffer := concat fs, stats := check_sequence
            ((stats r)\<lparr>sync_errors := sync_errors (stats r) + int (length noise)\<rparr>) seq\<rparr>"
  have b: "buffer r = noise @ f @ concat fs" using Cons.prems(3) by simp
  have first: "receive_frame r = (Inr (Some samples), ?r1)"
    unfolding receive_frame_no_port [OF Cons.prems(1)]
      parse_frame_after_noise [OF Cons.prems(2) enc b] frombuffer_tobytes by simp
  have "fst (receive_frames (Suc (length ps)) ?r1) =
           map (\<lambda>(seq, samples). Inr (Some samples)) ps @ [Inr None]"
    using Cons.prems(1) by (intro Cons.IH [where noise = "[]"]) simp_all
  then show ?case
    using first x by (simp add: split_beta)
qed

section \<open>The early return on an idle port\<close>

text \<open>
  With a port attached, \<^verbatim>\<open>receive_frame\<close> returns at once when the port holds no new bytes,
  before it looks at the backlog (lines 142-144): any number of calls returns nothing and
  leaves the backlog, whatever it holds, as it is.
\<close>

lemma receive_frames_idle:
  "ser r = Some p \<Longrightarrow> pending p = [] \<Longrightarrow> receive_frames n r = (replicate n (Inr None), r)"
  by (induction n) (simp_all add: receive_frame_idle)

section \<open>Claims\<close>



text \<open>
  C2. With a port attached, a call returns nothing although a complete, valid frame is in
  the backlog, and calling in a loop until \<open>None\<close> does not drain the buffered frames. The
  port delivers the frames with sequence numbers 5 and 9 (empty payloads) in one read: the
  first call returns the first frame; the second and third calls find the port idle and
  return nothing at lines 142-144, before they look at the backlog, and the second frame
  stays there. The same sixteen bytes in the backlog of a receiver without a port are
  drained by the same loop: the parse itself returns both frames.
\<close>

theorem idle_port_strands_frame:
  "encode_frame 5 [] = Some [0x55, 0xAA, 5, 0, 0, 0, 4, 1]
 \<and> encode_frame 9 [] = Some [0x55, 0xAA, 9, 0, 0, 0, 8, 1]
 \<and> receive_frames 3
      (deliver ([0x55, 0xAA, 5, 0, 0, 0, 4, 1] @ [0x55, 0xAA, 9, 0, 0, 0, 8, 1]) opened_receiver)
   = ([Inr (Some []), Inr None, Inr None],
      \<lparr>ser = Some \<lparr>pending = [], reset_raises = False\<rparr>,
       stats = \<lparr>frames_received = 1, frames_dropped = 0, checksum_errors = 0,
                sync_errors = 0, bytes_received = 16, last_seq = Some 5\<rparr>,
       buffer = [0x55, 0xAA, 9, 0, 0, 0, 8, 1]\<rparr>)
 \<and> fst (receive_frames 3
      (init_receiver\<lparr>buffer := [0x55, 0xAA, 5, 0, 0, 0, 4, 1] @ [0x55, 0xAA, 9, 0, 0, 0, 8, 1]\<rparr>))
   = [Inr (Some []), Inr (Some []), Inr None]"
proof -
  let ?bs = "[0x55, 0xAA, 5, 0, 0, 0, 4, 1] @ [0x55, 0xAA, 9, 0, 0, 0, 8, 1] :: byte list"
  let ?r0 = "\<lparr>ser = Some \<lparr>pending = [], reset_raises = False\<rparr>,
           stats = init_stats\<lparr>bytes_received := int (length ?bs)\<rparr>, buffer = ?bs\<rparr>"
  let ?r1 = "?r0\<lparr>buffer := [0x55, 0xAA, 9, 0, 0, 0, 8, 1], stats := check_sequence (stats ?r0) 5\<rparr>"
  have rd: "read_serial (deliver ?bs opened_receiver) = Some ?r0"
    by (rule read_serial_delivered) simp
  have "receive_frame (deliver ?bs opened_receiver) = parse_frame ?r0"
    by (rule receive_frame_read [OF rd])
  also have "\<dots> = (Inr (Some []), ?r1)"
    using parse_frame_encoded [OF encode_5, of ?r0 "[0x55, 0xAA, 9, 0, 0, 0, 8, 1]"] by simp
  finally have 1: "receive_frame (deliver ?bs opened_receiver) = (Inr (Some []), ?r1)" .
  have 2: "receive_frames (Suc (Suc 0)) ?r1 = (replicate (Suc (Suc 0)) (Inr None), ?r1)"
    by (rule receive_frames_idle [of _ "\<lparr>pending = [], reset_raises = False\<rparr>"]) simp_all
  have "receive_frames (Suc (Suc (Suc 0))) (deliver ?bs opened_receiver)
      = ([Inr (Some []), Inr None, Inr None], ?r1)"
    by (simp only: receive_frames.simps(2) [of "Suc (Suc 0)"] 1 2 Let_def prod.case
          replicate.simps)
  then have port: "receive_frames 3 (deliver ?bs opened_receiver)
      = ([Inr (Some []), Inr None, Inr None], ?r1)"
    by (simp only: numeral_3_eq_3)
  let ?q = "init_receiver\<lparr>buffer := ?bs\<rparr>"
  have l: "list_all2 (\<lambda>(seq, samples) f. encode_frame seq (tobytes samples) = Some f)
      [(5, []), (9, [])] [[0x55, 0xAA, 5, 0, 0, 0, 4, 1], [0x55, 0xAA, 9, 0, 0, 0, 8, 1]]"
    using encode_5 encode_9 by simp
  have "fst (receive_frames (Suc (length [(5 :: int, [] :: int16 list), (9, [])])) ?q) =
      map (\<lambda>(seq, samples). Inr (Some samples)) [(5 :: int, [] :: int16 list), (9, [])] @ [Inr None]"
    by (rule receive_frames_drain [OF l, where noise = "[]"]) (simp_all add: init_receiver_def)
  then have noport: "fst (receive_frames 3 ?q) = [Inr (Some []), Inr (Some []), Inr None]"
    by (simp add: numeral_3_eq_3)
  from port noport encode_5 encode_9 show ?thesis
    by (simp add: check_sequence_def init_stats_def)
qed

text \<open>
  C3. A frame whose length field is odd and whose checksum is valid is not turned into a
  checksum-class failure: the call counts it as a received frame, advances \<open>last_seq\<close>,
  leaves \<open>checksum_errors\<close> alone and then leaves \<^verbatim>\<open>receive_frame\<close> with numpy's ValueError.
  Here the port delivers the nine bytes of the frame with sequence number 0 and the
  one-byte payload 7.
\<close>

theorem odd_length_frame_raises:
  "encode_frame 0 [7] = Some [0x55, 0xAA, 0, 0, 1, 0, 7, 7, 1]
 \<and> receive_frame (deliver [0x55, 0xAA, 0, 0, 1, 0, 7, 7, 1] opened_receiver)
   = (Inl ValueError,
      \<lparr>ser = Some \<lparr>pending = [], reset_raises = False\<rparr>,
       stats = \<lparr>frames_received = 1, frames_dropped = 0, checksum_errors = 0,
                sync_errors = 0, bytes_received = 9, last_seq = Some 0\<rparr>,
       buffer = []\<rparr>)"
proof -
  let ?bs = "[0x55, 0xAA, 0, 0, 1, 0, 7, 7, 1] :: byte list"
  let ?r0 = "\<lparr>ser = Some \<lparr>pending = [], reset_raises = False\<rparr>,
       stats = init_stats\<lparr>bytes_received := 9\<rparr>, buffer = ?bs\<rparr>"
  have rd: "read_serial (deliver ?bs opened_receiver) = Some ?r0"
    by (simp add: read_serial_def deliver_def opened_receiver_def init_receiver_def init_stats_def Let_def)
  have "parse_frame ?r0 = (Inl ValueError, ?r0\<lparr>buffer := [], stats := check_sequence (stats ?r0) 0\<rparr>)"
    by (rule parse_frame_odd [OF encode_odd]) simp_all
  then show ?thesis
    using encode_odd by (simp add: receive_frame_read [OF rd] check_sequence_def init_stats_def)
qed

text \<open>
  C4. A flipped bit outside the checksum field does not always end as a checksum error.
  In the frame with sequence number 0 and an empty payload, flipping bit 0 of the first
  magic byte makes the sync search discard the bytes (\<open>sync_errors\<close> grows by 7,
  \<open>checksum_errors\<close> stays 0); flipping bit 1 of the low length byte announces two
  payload bytes, and the call returns nothing and waits for them, the frame kept in the
  backlog and \<open>checksum_errors\<close> still 0.
\<close>

theorem checksum_sensitivity_counterexample:
  "encode_frame 0 [] = Some [0x55, 0xAA, 0, 0, 0, 0, 0xFF, 0]
 \<and> receive_frame (deliver ([0x55, 0xAA, 0, 0, 0, 0, 0xFF, 0]
        [0 := flip_bit 0 ([0x55, 0xAA, 0, 0, 0, 0, 0xFF, 0] ! 0)]) opened_receiver)
   = (Inr None,
      \<lparr>ser = Some \<lparr>pending = [], reset_raises = False\<rparr>,
       stats = \<lparr>frames_received = 0, frames_dropped = 0, checksum_errors = 0,
                sync_errors = 7, bytes_received = 8, last_seq = None\<rparr>,
       buffer = [0]\<rparr>)
 \<and> receive_frame (deliver ([0x55, 0xAA, 0, 0, 0, 0, 0xFF, 0]
        [4 := flip_bit 1 ([0x55, 0xAA, 0, 0, 0, 0, 0xFF, 0] ! 4)]) opened_receiver)
   = (Inr None,
      \<lparr>ser = Some \<lparr>pending = [], reset_raises = False\<rparr>,
       stats = \<lparr>frames_received = 0, frames_dropped = 0, checksum_errors = 0,
                sync_errors = 0, bytes_received = 8, last_seq = None\<rparr>,
       buffer = [0x55, 0xAA, 0, 0, 2, 0, 0xFF, 0]\<rparr>)"
proof -
  have f0: "flip_bit 0 (0x55 :: byte) = 0x54" "flip_bit 1 (0 :: byte) = 2"
    by (simp_all add: flip_bit_eq_xor)
  have 1: "receive_frame (deliver [0x54, 0xAA, 0, 0, 0, 0, 0xFF, 0] opened_receiver)
   = (Inr None,
      \<lparr>ser = Some \<lparr>pending = [], reset_raises = False\<rparr>,
       stats = \<lparr>frames_received = 0, frames_dropped = 0, checksum_errors = 0,
                sync_errors = 7, bytes_received = 8, last_seq = None\<rparr>,
       buffer = [0]\<rparr>)"
    by (simp add: receive_frame_def read_serial_def deliver_def opened_receiver_def
          init_receiver_def init_stats_def parse_frame_def find_sync.simps Let_def)
  have 2: "receive_frame (deliver [0x55, 0xAA, 0, 0, 2, 0, 0xFF, 0] opened_receiver)
   = (Inr None,
      \<lparr>ser = Some \<lparr>pending = [], reset_raises = False\<rparr>,
       stats = \<lparr>frames_received = 0, frames_dropped = 0, checksum_errors = 0,
                sync_errors = 0, bytes_received = 8, last_seq = None\<rparr>,
       buffer = [0x55, 0xAA, 0, 0, 2, 0, 0xFF, 0]\<rparr>)"
    by (simp add: receive_frame_def read_serial_def deliver_def opened_receiver_def
          init_receiver_def init_stats_def parse_frame_def find_sync.simps Let_def)
  show ?thesis using encode_0 1 2 by (simp add: f0)
qed

text \<open>
  C4, amended. For every well-formed frame at the head of the backlog, flipping any single
  bit of its sequence-number field (bytes 2 and 3) or of its payload (bytes 6 and up,
  before the checksum) makes the call return nothing, adds exactly one to
  \<open>checksum_errors\<close>, consumes the frame and leaves \<open>last_seq\<close> unchanged.
\<close>

theorem checksum_sensitivity:
  assumes enc: "encode_frame seq payload = Some f"
    and pos: "i = 2 \<or> i = 3 \<or> (6 \<le> i \<and> i < 6 + length payload)"
    and bit: "j < 8"
    and rd: "read_serial r = Some r0"
    and buf: "buffer r0 = f[i := flip_bit j (f ! i)] @ rest"
  shows "receive_frame r = (Inr None, r0\<lparr>buffer := rest,
              stats := (stats r0)\<lparr>checksum_errors := checksum_errors (stats r0) + 1\<rparr>\<rparr>)
       \<and> checksum_errors (stats (snd (receive_frame r))) = checksum_errors (stats r) + 1
       \<and> last_seq (stats (snd (receive_frame r))) = last_seq (stats r)"
proof -
  have "flip_bit j (f ! i) \<noteq> f ! i" using bit by (rule flip_bit_byte_neq)
  from parse_frame_corrupted [OF enc pos this buf]
  have "receive_frame r = (Inr None, r0\<lparr>buffer := rest,
              stats := (stats r0)\<lparr>checksum_errors := checksum_errors (stats r0) + 1\<rparr>\<rparr>)"
    by (simp add: receive_frame_read [OF rd])
  then show ?thesis using read_serial_stats [OF rd] by simp
qed

theorem checksum_sensitivity_witness:
  "encode_frame 7 [1, 2, 3, 4] = Some [0x55, 0xAA, 7, 0, 4, 0, 1, 2, 3, 4, 0x14, 1]
 \<and> [0x55, 0xAA, 7, 0, 4, 0, 1, 2, 3, 4, 0x14, 1]
      [6 := flip_bit 0 ([0x55, 0xAA, 7, 0, 4, 0, 1, 2, 3, 4, 0x14, 1] ! 6)]
      = [0x55, 0xAA, 7, 0, 4, 0, 0, 2, 3, 4, 0x14, 1 :: byte]
 \<and> receive_frame (init_receiver\<lparr>buffer := [0x55, 0xAA, 7, 0, 4, 0, 0, 2, 3, 4, 0x14, 1]\<rparr>)
   = (Inr None, init_receiver\<lparr>buffer := [], stats := init_stats\<lparr>checksum_errors := 1\<rparr>\<rparr>)"
proof -
  let ?f = "[0x55, 0xAA, 7, 0, 4, 0, 1, 2, 3, 4, 0x14, 1] :: byte list"
  let ?r = "init_receiver\<lparr>buffer := [0x55, 0xAA, 7, 0, 4, 0, 0, 2, 3, 4, 0x14, 1]\<rparr>"
  have e: "encode_frame 7 [1, 2, 3, 4] = Some ?f"
    by (simp add: encode_frame_def pack_H_def calculate_checksum_def Let_def)
  have u: "?f[6 := flip_bit 0 (?f ! 6)] = [0x55, 0xAA, 7, 0, 4, 0, 0, 2, 3, 4, 0x14, 1]"
    by (simp add: flip_bit_eq_xor)
  have pos: "(6::nat) = 2 \<or> (6::nat) = 3 \<or> (6 \<le> (6::nat) \<and> (6::nat) < 6 + length [1, 2, 3, 4 :: byte])"
    by simp
  have bit: "(0::nat) < 8" by simp
  have rd: "read_serial ?r = Some ?r" by (simp add: read_serial_def init_receiver_def)
  have b: "buffer ?r = ?f[6 := flip_bit 0 (?f ! 6)] @ []" unfolding u by simp
  from checksum_sensitivity [OF e pos bit rd b] e u show ?thesis
    by (simp add: init_receiver_def init_stats_def)
qed

text \<open>
  C5. Noise that contains the magic, but no complete frame with a valid checksum, can
  swallow the frame behind it. The two noise bytes \<open>55 AA\<close> in front of the frame with
  sequence number 0 and an empty payload form no match with a valid checksum; the call
  takes them for a header, reads the frame's magic as a sequence number, fails the
  checksum and returns nothing, with the start of the frame consumed and \<open>sync_errors\<close>
  still 0.
\<close>

theorem resync_counterexample:
  "encode_frame 0 [] = Some [0x55, 0xAA, 0, 0, 0, 0, 0xFF, 0]
 \<and> \<not> coincidental_match [0x55, 0xAA] [0x55, 0xAA, 0, 0, 0, 0, 0xFF, 0]
 \<and> receive_frame (deliver ([0x55, 0xAA] @ [0x55, 0xAA, 0, 0, 0, 0, 0xFF, 0]) opened_receiver)
   = (Inr None,
      \<lparr>ser = Some \<lparr>pending = [], reset_raises = False\<rparr>,
       stats = \<lparr>frames_received = 0, frames_dropped = 0, checksum_errors = 1,
                sync_errors = 0, bytes_received = 10, last_seq = None\<rparr>,
       buffer = [0xFF, 0]\<rparr>)"
proof -
  let ?bs = "[0x55, 0xAA] @ [0x55, 0xAA, 0, 0, 0, 0, 0xFF, 0] :: byte list"
  let ?r0 = "\<lparr>ser = Some \<lparr>pending = [], reset_raises = False\<rparr>,
           stats = init_stats\<lparr>bytes_received := int (length ?bs)\<rparr>, buffer = ?bs\<rparr>"
  have nc: "\<not> coincidental_match [0x55, 0xAA] [0x55, 0xAA, 0, 0, 0, 0, 0xFF, 0]"
    by (simp add: coincidental_match_def frame_match_def calculate_checksum_def upt_rec [of 0] upt_rec [of 1])
  have rd: "read_serial (deliver ?bs opened_receiver) = Some ?r0"
    by (rule read_serial_delivered) simp
  have b: "buffer ?r0 = 0x55 # 0xAA # 0x55 # 0xAA # 0 # 0 # [] @ 0 # 0 # [0xFF, 0]" by simp
  have "parse_frame ?r0 = (Inr None, ?r0\<lparr>buffer := [0xFF, 0],
      stats := (stats ?r0)\<lparr>checksum_errors := checksum_errors (stats ?r0) + 1\<rparr>\<rparr>)"
    by (subst parse_frame_at [OF b]) (simp_all add: calculate_checksum_def)
  moreover have "receive_frame (deliver ?bs opened_receiver) = parse_frame ?r0"
    by (rule receive_frame_read [OF rd])
  ultimately show ?thesis
    using encode_0 nc by (simp add: init_stats_def)
qed

text \<open>
  C5, amended. For any valid frame, noise bytes in front of it that nowhere contain the
  two magic bytes \<open>55 AA\<close> next to each other are skipped one by one: the call (once it is
  past the port) returns the frame's payload and \<open>sync_errors\<close> has grown by exactly the
  number of noise bytes.
\<close>

theorem resync_after_noise:
  assumes nm: "\<not> has_magic noise"
    and enc: "encode_frame seq payload = Some f"
    and ev: "even (length payload)"
    and rd: "read_serial r = Some r0"
    and buf: "buffer r0 = noise @ f @ rest"
  shows "\<exists>samples. frombuffer_int16 payload = Inr samples \<and> tobytes samples = payload
         \<and> receive_frame r = (Inr (Some samples), r0\<lparr>buffer := rest, stats := check_sequence
              ((stats r0)\<lparr>sync_errors := sync_errors (stats r0) + int (length noise)\<rparr>) seq\<rparr>)
         \<and> sync_errors (stats (snd (receive_frame r))) = sync_errors (stats r) + int (length noise)"
proof -
  from frombuffer_even [OF ev] obtain samples where
    s: "frombuffer_int16 payload = Inr samples" "tobytes samples = payload" by blast
  have "receive_frame r = (Inr (Some samples), r0\<lparr>buffer := rest, stats := check_sequence
              ((stats r0)\<lparr>sync_errors := sync_errors (stats r0) + int (length noise)\<rparr>) seq\<rparr>)"
    unfolding receive_frame_read [OF rd] parse_frame_after_noise [OF nm enc buf] s(1) by simp
  moreover have "sync_errors (stats r0) = sync_errors (stats r)"
    using read_serial_stats [OF rd] by simp
  ultimately show ?thesis using s by (simp add: check_sequence_counters)
qed

theorem resync_after_noise_witness:
  "\<not> has_magic [0xAA, 0x55, 0x55]
 \<and> encode_frame 7 [1, 2, 3, 4] = Some [0x55, 0xAA, 7, 0, 4, 0, 1, 2, 3, 4, 0x14, 1]
 \<and> even (length [1, 2, 3, 4 :: byte])
 \<and> receive_frame (init_receiver\<lparr>buffer := [0xAA, 0x55, 0x55] @ [0x55, 0xAA, 7, 0, 4, 0, 1, 2, 3, 4, 0x14, 1] @ []\<rparr>)
   = (Inr (Some [0x0201, 0x0403]),
      init_receiver\<lparr>buffer := [],
        stats := init_stats\<lparr>sync_errors := 3, last_seq := Some 7, frames_received := 1\<rparr>\<rparr>)"
proof -
  let ?r = "init_receiver\<lparr>buffer := [0xAA, 0x55, 0x55] @ [0x55, 0xAA, 7, 0, 4, 0, 1, 2, 3, 4, 0x14, 1] @ []\<rparr>"
  have nm: "\<not> has_magic [0xAA, 0x55, 0x55]" by simp
  have e: "encode_frame 7 [1, 2, 3, 4] = Some [0x55, 0xAA, 7, 0, 4, 0, 1, 2, 3, 4, 0x14, 1]"
    by (simp add: encode_frame_def pack_H_def calculate_checksum_def Let_def)
  have v: "even (length [1, 2, 3, 4 :: byte])" by simp
  have rd: "read_serial ?r = Some ?r" by (simp add: read_serial_def init_receiver_def)
  have b: "buffer ?r = [0xAA, 0x55, 0x55] @ [0x55, 0xAA, 7, 0, 4, 0, 1, 2, 3, 4, 0x14, 1] @ []"
    by simp
  from resync_after_noise [OF nm e v rd b] nm e v show ?thesis
    by (simp add: check_sequence_def init_receiver_def init_stats_def)
qed

text \<open>
  C6. When a call accepts a frame (its checksum is valid) and \<open>last_seq\<close> is set, the gap
  counter \<open>frames_dropped\<close> grows by \<open>(seq - (last_seq + 1) mod 65536) mod 65536\<close> if \<open>seq\<close>
  is not the expected successor, and not at all otherwise, and \<open>last_seq\<close> becomes \<open>seq\<close>.
  The accepted frame is the one at the first magic of the backlog, behind any bytes
  without a magic; \<open>read_serial r = Some r0\<close> says that the call gets past the port and
  parses the backlog of \<open>r0\<close>. The instance below accepts sequence number 5, then 9: the
  counter grows by 3.
\<close>

theorem sequence_gap_accounting:
  assumes enc: "encode_frame seq payload = Some f"
    and rd: "read_serial r = Some r0"
    and nm: "\<not> has_magic noise"
    and buf: "buffer r0 = noise @ f @ rest"
    and l: "last_seq (stats r) = Some l"
  shows "frames_dropped (stats (snd (receive_frame r))) =
           frames_dropped (stats r)
           + (if seq \<noteq> (l + 1) mod 65536 then (seq - (l + 1) mod 65536) mod 65536 else 0)
       \<and> last_seq (stats (snd (receive_frame r))) = Some seq"
proof -
  let ?st = "(stats r0)\<lparr>sync_errors := sync_errors (stats r0) + int (length noise)\<rparr>"
  have l0: "last_seq ?st = Some l" "frames_dropped ?st = frames_dropped (stats r)"
    using read_serial_stats [OF rd] l by simp_all
  have "snd (receive_frame r) = r0\<lparr>buffer := rest, stats := check_sequence ?st seq\<rparr>"
    unfolding receive_frame_read [OF rd] parse_frame_after_noise [OF nm enc buf]
    by (simp split: sum.splits)
  then show ?thesis
    using check_sequence_dropped [OF l0(1), of seq] l0(2) by (simp add: check_sequence_last_seq)
qed

theorem sequence_gap_accounting_witness:
  "encode_frame 5 [] = Some [0x55, 0xAA, 5, 0, 0, 0, 4, 1]
 \<and> encode_frame 9 [] = Some [0x55, 0xAA, 9, 0, 0, 0, 8, 1]
 \<and> snd (receive_frame (init_receiver\<lparr>buffer := [0x55, 0xAA, 5, 0, 0, 0, 4, 1, 0x55, 0xAA, 9, 0, 0, 0, 8, 1]\<rparr>))
     = init_receiver\<lparr>buffer := [0x55, 0xAA, 9, 0, 0, 0, 8, 1],
          stats := init_stats\<lparr>last_seq := Some 5, frames_received := 1\<rparr>\<rparr>
 \<and> frames_dropped (stats (snd (receive_frame (init_receiver\<lparr>buffer := [0x55, 0xAA, 9, 0, 0, 0, 8, 1],
          stats := init_stats\<lparr>last_seq := Some 5, frames_received := 1\<rparr>\<rparr>)))) = 3
 \<and> last_seq (stats (snd (receive_frame (init_receiver\<lparr>buffer := [0x55, 0xAA, 9, 0, 0, 0, 8, 1],
          stats := init_stats\<lparr>last_seq := Some 5, frames_received := 1\<rparr>\<rparr>)))) = Some 9"
proof -
  let ?r1 = "init_receiver\<lparr>buffer := [0x55, 0xAA, 9, 0, 0, 0, 8, 1],
          stats := init_stats\<lparr>last_seq := Some 5, frames_received := 1\<rparr>\<rparr>"
  have first: "snd (receive_frame (init_receiver\<lparr>buffer := [0x55, 0xAA, 5, 0, 0, 0, 4, 1, 0x55, 0xAA, 9, 0, 0, 0, 8, 1]\<rparr>)) = ?r1"
    using snd_parse_frame_encoded [OF encode_5, of "init_receiver\<lparr>buffer := [0x55, 0xAA, 5, 0, 0, 0, 4, 1, 0x55, 0xAA, 9, 0, 0, 0, 8, 1]\<rparr>" "[0x55, 0xAA, 9, 0, 0, 0, 8, 1]"]
    by (simp add: receive_frame_def read_serial_def init_receiver_def init_stats_def check_sequence_def)
  have rd: "read_serial ?r1 = Some ?r1" by (simp add: read_serial_def init_receiver_def)
  have nm: "\<not> has_magic []" by simp
  have buf: "buffer ?r1 = [] @ [0x55, 0xAA, 9, 0, 0, 0, 8, 1] @ []" by simp
  have l: "last_seq (stats ?r1) = Some 5" by simp
  from sequence_gap_accounting [OF encode_9 rd nm buf l] first encode_5 encode_9
  show ?thesis by (simp add: init_stats_def init_receiver_def)
qed

text \<open>
  C7. One valid frame delivered to the port in two pieces, cut at any point before its
  end: the call after the first piece returns nothing and keeps exactly that piece in the
  backlog; the call after the second piece returns the payload and empties the backlog;
  a further call returns nothing.
\<close>

theorem partial_frame_patience:
  assumes enc: "encode_frame seq payload = Some f"
    and ev: "even (length payload)"
    and k: "k < length f"
    and port: "ser r = Some p" "pending p = []"
    and empty: "buffer r = []"
  shows "\<exists>samples. frombuffer_int16 payload = Inr samples \<and> tobytes samples = payload \<and>
     (let r1 = r\<lparr>buffer := take k f,
                 stats := (stats r)\<lparr>bytes_received := bytes_received (stats r) + int k\<rparr>\<rparr>;
          r2 = r\<lparr>buffer := [],
                 stats := check_sequence
                   ((stats r)\<lparr>bytes_received := bytes_received (stats r) + int (length f)\<rparr>) seq\<rparr>
      in receive_frame (deliver (take k f) r) = (Inr None, r1)
       \<and> receive_frame (deliver (drop k f) r1) = (Inr (Some samples), r2)
       \<and> receive_frame r2 = (Inr None, r2))"
proof -
  from frombuffer_even [OF ev] obtain samples where
    s: "frombuffer_int16 payload = Inr samples" "tobytes samples = payload" by blast
  let ?r1 = "r\<lparr>buffer := take k f,
                 stats := (stats r)\<lparr>bytes_received := bytes_received (stats r) + int k\<rparr>\<rparr>"
  let ?r2 = "r\<lparr>buffer := [],
                 stats := check_sequence
                   ((stats r)\<lparr>bytes_received := bytes_received (stats r) + int (length f)\<rparr>) seq\<rparr>"
  have first: "receive_frame (deliver (take k f) r) = (Inr None, ?r1)"
  proof (cases "k = 0")
    case True
    have "?r1 = r" using True empty by (cases r) simp
    moreover have "receive_frame (deliver (take k f) r) = (Inr None, r)"
      using True port by (simp add: deliver_nothing receive_frame_idle)
    ultimately show ?thesis by simp
  next
    case False
    then have ne: "take k f \<noteq> []" using k by auto
    have "read_serial (deliver (take k f) r) = Some ?r1"
      using read_serial_deliver [OF port ne] empty k by simp
    then have "receive_frame (deliver (take k f) r) = parse_frame ?r1"
      by (rule receive_frame_read)
    also have "\<dots> = (Inr None, ?r1)"
      by (rule parse_frame_partial [OF enc k]) simp
    finally show ?thesis .
  qed
  have p1: "ser ?r1 = Some p" using port by simp
  have ne2: "drop k f \<noteq> []" using k by simp
  let ?r1' = "?r1\<lparr>buffer := buffer ?r1 @ drop k f,
       stats := (stats ?r1)\<lparr>bytes_received := bytes_received (stats ?r1) + int (length (drop k f))\<rparr>\<rparr>"
  have "read_serial (deliver (drop k f) ?r1) = Some ?r1'"
    by (rule read_serial_deliver [OF p1 port(2) ne2])
  then have "receive_frame (deliver (drop k f) ?r1) = parse_frame ?r1'"
    by (rule receive_frame_read)
  moreover have "buffer ?r1' = f @ []" by simp
  ultimately have "receive_frame (deliver (drop k f) ?r1) =
      (Inr (Some samples), ?r1'\<lparr>buffer := [], stats := check_sequence (stats ?r1') seq\<rparr>)"
    using parse_frame_encoded [OF enc, of ?r1' "[]"] s(1) by simp
  moreover have "?r1'\<lparr>buffer := [], stats := check_sequence (stats ?r1') seq\<rparr> = ?r2"
    using k by (simp add: add.assoc)
  ultimately have second: "receive_frame (deliver (drop k f) ?r1) = (Inr (Some samples), ?r2)"
    by simp
  have third: "receive_frame ?r2 = (Inr None, ?r2)"
    using port by (intro receive_frame_idle [of _ p]) simp_all
  from s first second third show ?thesis by (simp add: Let_def)
qed

theorem partial_frame_patience_witness:
  "encode_frame 7 [1, 2, 3, 4] = Some [0x55, 0xAA, 7, 0, 4, 0, 1, 2, 3, 4, 0x14, 1]
 \<and> even (length [1, 2, 3, 4 :: byte])
 \<and> (5::nat) < length [0x55, 0xAA, 7, 0, 4, 0, 1, 2, 3, 4, 0x14, 1 :: byte]
 \<and> receive_frame (deliver [0x55, 0xAA, 7, 0, 4] opened_receiver)
    = (Inr None, opened_receiver\<lparr>buffer := [0x55, 0xAA, 7, 0, 4],
          stats := init_stats\<lparr>bytes_received := 5\<rparr>\<rparr>)
 \<and> receive_frame (deliver [0, 1, 2, 3, 4, 0x14, 1]
        (opened_receiver\<lparr>buffer := [0x55, 0xAA, 7, 0, 4],
          stats := init_stats\<lparr>bytes_received := 5\<rparr>\<rparr>))
    = (Inr (Some [0x0201, 0x0403]), opened_receiver\<lparr>buffer := [],
          stats := init_stats\<lparr>bytes_received := 12, last_seq := Some 7, frames_received := 1\<rparr>\<rparr>)"
proof -
  let ?f = "[0x55, 0xAA, 7, 0, 4, 0, 1, 2, 3, 4, 0x14, 1] :: byte list"
  have e: "encode_frame 7 [1, 2, 3, 4] = Some ?f"
    by (simp add: encode_frame_def pack_H_def calculate_checksum_def Let_def)
  have v: "even (length [1, 2, 3, 4 :: byte])" by simp
  have k: "(5::nat) < length ?f" by simp
  have port: "ser opened_receiver = Some \<lparr>pending = [], reset_raises = False\<rparr>"
    "pending \<lparr>pending = [], reset_raises = False\<rparr> = []"
    by (simp_all add: opened_receiver_def)
  have empty: "buffer opened_receiver = []" by (simp add: opened_receiver_def init_receiver_def)
  from partial_frame_patience [OF e v k port empty] e v k show ?thesis
    by (simp add: Let_def opened_receiver_def init_receiver_def init_stats_def check_sequence_def)
qed

text \<open>
  C8. When the stream reports fewer writable frames than twice the number of samples of
  the payload, \<^verbatim>\<open>play\<close> (with its default \<^verbatim>\<open>drop_if_buffer_full=True\<close>) returns \<open>False\<close>,
  counts one dropped frame and changes nothing else: the stream, and with it the list of
  written buffers, is as before.
\<close>

theorem saturation_drop:
  assumes "stream p = Some st"
    and "write_available st = Some available"
    and "available < 2 * int (length audio_data)"
  shows "play p audio_data True = (False, p\<lparr>frames_dropped_play := frames_dropped_play p + 1\<rparr>)
       \<and> stream (snd (play p audio_data True)) = Some st
       \<and> frames_dropped_play (snd (play p audio_data True)) = frames_dropped_play p + 1"
  using assms by (simp add: play_def)

theorem saturation_drop_witness:
  "stream \<lparr>sample_rate = 48000, max_buffer_frames = 240,
       stream = Some \<lparr>write_available = Some 3, write_raises = False, written = []\<rparr>,
       frames_dropped_play = 0\<rparr>
     = Some \<lparr>write_available = Some 3, write_raises = False, written = []\<rparr>
 \<and> write_available \<lparr>write_available = Some 3, write_raises = False, written = []\<rparr> = Some 3
 \<and> (3::int) < 2 * int (length [1, 2 :: int16])
 \<and> play \<lparr>sample_rate = 48000, max_buffer_frames = 240,
       stream = Some \<lparr>write_available = Some 3, write_raises = False, written = []\<rparr>,
       frames_dropped_play = 0\<rparr> [1, 2] True
     = (False, \<lparr>sample_rate = 48000, max_buffer_frames = 240,
       stream = Some \<lparr>write_available = Some 3, write_raises = False, written = []\<rparr>,
       frames_dropped_play = 1\<rparr>)"
  using saturation_drop [of "\<lparr>sample_rate = 48000, max_buffer_frames = 240,
       stream = Some \<lparr>write_available = Some 3, write_raises = False, written = []\<rparr>,
       frames_dropped_play = 0\<rparr>" "\<lparr>write_available = Some 3, write_raises = False, written = []\<rparr>"
       3 "[1, 2]"]
  by simp

text \<open>
  C9. \<^verbatim>\<open>flush_backlog\<close> empties the backlog of any receiver and leaves its statistics, with
  \<open>last_seq\<close> and every counter, as they were; the extraction that follows finds nothing.
  When the backlog held the first \<open>k\<close> bytes of a valid frame, the rest of which would have
  completed it, the call after the flush returns nothing, and the payload is not returned
  either once the rest has arrived.
\<close>

theorem flush_backlog_discards:
  "buffer (flush_backlog r) = []
 \<and> stats (flush_backlog r) = stats r
 \<and> parse_frame (flush_backlog r) = (Inr None, flush_backlog r)
 \<and> (encode_frame seq payload = Some f \<and> even (length payload) \<and> 0 < k \<and> k < length f
      \<and> ser r = Some p \<and> pending p = [] \<and> buffer r = take k f
    \<longrightarrow> (\<exists>samples. frombuffer_int16 payload = Inr samples
          \<and> fst (receive_frame (deliver (drop k f) r)) = Inr (Some samples)
          \<and> receive_frame (flush_backlog r) = (Inr None, flush_backlog r)
          \<and> fst (receive_frame (deliver (drop k f) (flush_backlog r))) \<noteq> Inr (Some samples)))"
proof (intro conjI impI)
  show "buffer (flush_backlog r) = []" by (rule flush_backlog_buffer)
  show "stats (flush_backlog r) = stats r" by (rule flush_backlog_stats)
  show "parse_frame (flush_backlog r) = (Inr None, flush_backlog r)"
    by (rule parse_frame_empty [OF flush_backlog_buffer])
next
  assume a: "encode_frame seq payload = Some f \<and> even (length payload) \<and> 0 < k \<and> k < length f
      \<and> ser r = Some p \<and> pending p = [] \<and> buffer r = take k f"
  then have enc: "encode_frame seq payload = Some f" and ev: "even (length payload)"
    and k: "0 < k" "k < length f" and port: "ser r = Some p" "pending p = []"
    and buf: "buffer r = take k f" by simp_all
  from frombuffer_even [OF ev] obtain samples where
    s: "frombuffer_int16 payload = Inr samples" "2 * length samples = length payload" by blast
  have ne: "drop k f \<noteq> []" using k by simp
  \<comment> \<open>without the flush, the rest completes the frame\<close>
  let ?r1 = "r\<lparr>buffer := buffer r @ drop k f,
       stats := (stats r)\<lparr>bytes_received := bytes_received (stats r) + int (length (drop k f))\<rparr>\<rparr>"
  have "receive_frame (deliver (drop k f) r) = parse_frame ?r1"
    using read_serial_deliver [OF port ne] by (rule receive_frame_read)
  moreover have "buffer ?r1 = f @ []" using buf by simp
  ultimately have kept: "fst (receive_frame (deliver (drop k f) r)) = Inr (Some samples)"
    using parse_frame_encoded [OF enc, of ?r1 "[]"] s(1) by simp
  \<comment> \<open>with the flush\<close>
  from flush_backlog_port [OF port] obtain p' where
    p': "ser (flush_backlog r) = Some p'" "pending p' = []" by blast
  have idle: "receive_frame (flush_backlog r) = (Inr None, flush_backlog r)"
    using p' by (rule receive_frame_idle)
  let ?q = "flush_backlog r"
  let ?q1 = "?q\<lparr>buffer := buffer ?q @ drop k f,
       stats := (stats ?q)\<lparr>bytes_received := bytes_received (stats ?q) + int (length (drop k f))\<rparr>\<rparr>"
  have rq: "receive_frame (deliver (drop k f) ?q) = parse_frame ?q1"
    using read_serial_deliver [OF p' ne] by (rule receive_frame_read)
  have lost: "fst (receive_frame (deliver (drop k f) ?q)) \<noteq> Inr (Some samples)"
  proof
    assume "fst (receive_frame (deliver (drop k f) ?q)) = Inr (Some samples)"
    then obtain r' where "parse_frame ?q1 = (Inr (Some samples), r')"
      unfolding rq by (cases "parse_frame ?q1") simp
    from parse_frame_Some_length [OF this]
    have "2 * length samples + 8 \<le> length f - k" by (simp add: flush_backlog_buffer)
    then show False using s(2) encode_frame_length [OF enc] k by simp
  qed
  from s(1) kept idle lost
  show "\<exists>samples. frombuffer_int16 payload = Inr samples
          \<and> fst (receive_frame (deliver (drop k f) r)) = Inr (Some samples)
          \<and> receive_frame (flush_backlog r) = (Inr None, flush_backlog r)
          \<and> fst (receive_frame (deliver (drop k f) (flush_backlog r))) \<noteq> Inr (Some samples)"
    by blast
qed

theorem flush_backlog_discards_witness:
  "encode_frame 7 [1, 2, 3, 4] = Some [0x55, 0xAA, 7, 0, 4, 0, 1, 2, 3, 4, 0x14, 1]
 \<and> even (length [1, 2, 3, 4 :: byte])
 \<and> (0::nat) < 5 \<and> (5::nat) < length [0x55, 0xAA, 7, 0, 4, 0, 1, 2, 3, 4, 0x14, 1 :: byte]
 \<and> buffer (flush_backlog (opened_receiver\<lparr>buffer := [0x55, 0xAA, 7, 0, 4]\<rparr>)) = []
 \<and> stats (flush_backlog (opened_receiver\<lparr>buffer := [0x55, 0xAA, 7, 0, 4]\<rparr>)) = init_stats
 \<and> fst (receive_frame (deliver [0, 1, 2, 3, 4, 0x14, 1]
        (opened_receiver\<lparr>buffer := [0x55, 0xAA, 7, 0, 4]\<rparr>))) = Inr (Some [0x0201, 0x0403])
 \<and> fst (receive_frame (flush_backlog (opened_receiver\<lparr>buffer := [0x55, 0xAA, 7, 0, 4]\<rparr>))) = Inr None
 \<and> fst (receive_frame (deliver [0, 1, 2, 3, 4, 0x14, 1]
        (flush_backlog (opened_receiver\<lparr>buffer := [0x55, 0xAA, 7, 0, 4]\<rparr>)))) \<noteq> Inr (Some [0x0201, 0x0403])"
proof -
  let ?f = "[0x55, 0xAA, 7, 0, 4, 0, 1, 2, 3, 4, 0x14, 1] :: byte list"
  let ?r = "opened_receiver\<lparr>buffer := [0x55, 0xAA, 7, 0, 4]\<rparr>"
  have e: "encode_frame 7 [1, 2, 3, 4] = Some ?f"
    by (simp add: encode_frame_def pack_H_def calculate_checksum_def Let_def)
  have h: "ser ?r = Some \<lparr>pending = [], reset_raises = False\<rparr>" "buffer ?r = take 5 ?f"
    "stats ?r = init_stats"
    by (simp_all add: opened_receiver_def init_receiver_def)
  from flush_backlog_discards [of ?r 7 "[1, 2, 3, 4]" ?f 5 "\<lparr>pending = [], reset_raises = False\<rparr>"] e h
  show ?thesis by simp
qed

text \<open>
  C10. The queued-latency estimate is not bounded by \<open>240 * 1000 / sample_rate\<close> for every
  number the stream reports: the queued count is clamped below only, so a negative report
  (PortAudio's error codes are negative) yields more than 240 queued frames. At 48000 Hz a
  report of \<open>-1\<close> gives more than 5 ms.
\<close>

theorem latency_bound_counterexample:
  "get_buffer_latency_ms \<lparr>sample_rate = 48000, max_buffer_frames = 240,
       stream = Some \<lparr>write_available = Some (- 1), write_raises = False, written = []\<rparr>,
       frames_dropped_play = 0\<rparr> > 240 * 1000 / 48000
 \<and> get_buffer_latency_ms \<lparr>sample_rate = 48000, max_buffer_frames = 240,
       stream = Some \<lparr>write_available = Some (- 1), write_raises = False, written = []\<rparr>,
       frames_dropped_play = 0\<rparr> > 5"
  by (simp add: get_buffer_latency_ms_def)

text \<open>
  C10, amended. For a positive sample rate, the estimate is at least 0 and at most
  \<open>240 * 1000 / sample_rate\<close> milliseconds (5 ms at 48000 Hz) for every non-negative number
  of writable frames that the stream reports, and it is 0 when the query raises. The float
  arithmetic of the source is taken as exact.
\<close>

theorem latency_bound:
  assumes "0 < sample_rate p"
    and "stream p = Some st"
    and "case write_available st of None \<Rightarrow> True | Some available \<Rightarrow> 0 \<le> available"
  shows "0 \<le> get_buffer_latency_ms p
       \<and> get_buffer_latency_ms p \<le> 240 * 1000 / real_of_int (sample_rate p)
       \<and> (sample_rate p = 48000 \<longrightarrow> get_buffer_latency_ms p \<le> 5)
       \<and> (write_available st = None \<longrightarrow> get_buffer_latency_ms p = 0)"
proof (cases "write_available st")
  case None
  with assms show ?thesis by (simp add: get_buffer_latency_ms_def)
next
  case (Some a)
  with assms have a: "0 \<le> a" by simp
  let ?q = "max 0 (240 - a)"
  have q: "0 \<le> ?q" "?q \<le> 240" using a by auto
  have L: "get_buffer_latency_ms p = real_of_int ?q * 1000 / real_of_int (sample_rate p)"
    using assms Some by (simp add: get_buffer_latency_ms_def Let_def)
  have sr: "0 < real_of_int (sample_rate p)" using assms(1) by simp
  have lo: "0 \<le> real_of_int ?q * 1000 / real_of_int (sample_rate p)"
    using q(1) sr by simp
  have "real_of_int ?q * 1000 \<le> 240 * 1000" using q(2) by simp
  then have hi: "real_of_int ?q * 1000 / real_of_int (sample_rate p) \<le> 240 * 1000 / real_of_int (sample_rate p)"
    using sr by (rule divide_right_mono [OF _ less_imp_le])
  have "sample_rate p = 48000 \<longrightarrow> 240 * 1000 / real_of_int (sample_rate p) = 5" by simp
  with lo hi L Some show ?thesis by auto
qed

theorem latency_bound_witness:
  "0 < sample_rate \<lparr>sample_rate = 48000, max_buffer_frames = 240,
       stream = Some \<lparr>write_available = Some 180, write_raises = False, written = []\<rparr>,
       frames_dropped_play = 0\<rparr>
 \<and> get_buffer_latency_ms \<lparr>sample_rate = 48000, max_buffer_frames = 240,
       stream = Some \<lparr>write_available = Some 180, write_raises = False, written = []\<rparr>,
       frames_dropped_play = 0\<rparr> = 5 / 4
 \<and> get_buffer_latency_ms \<lparr>sample_rate = 48000, max_buffer_frames = 240,
       stream = Some \<lparr>write_available = Some 180, write_raises = False, written = []\<rparr>,
       frames_dropped_play = 0\<rparr> \<le> 5"
  using latency_bound [of "\<lparr>sample_rate = 48000, max_buffer_frames = 240,
       stream = Some \<lparr>write_available = Some 180, write_raises = False, written = []\<rparr>,
       frames_dropped_play = 0\<rparr>" "\<lparr>write_available = Some 180, write_raises = False, written = []\<rparr>"]
  by (simp add: get_buffer_latency_ms_def)

end
